theory Spec2Isabelle
  imports
    Complex_Main
    "HOL-Library.AList"
    "HOL-Library.Multiset"
    "HOL-Library.Product_Lexorder"
    "HOL-Library.List_Lexorder"
    "HOL-Library.Char_ord"
begin

section \<open>Data model\<close>

text \<open>
  Identifiers are UUIDs: opaque values that Python compares as 128-bit integers.
  A \<open>datetime\<close> is modelled by its number of seconds since the Unix epoch (the service
  converts a whole number of seconds), a \<open>timedelta\<close> by a number of seconds, and a
  Python \<open>float\<close> percentage by a real number.  Pydantic's \<open>copy(deep=True)\<close> is the
  identity on immutable values.
\<close>

type_synonym uuid = nat

record book =
  book_id :: uuid
  title :: string
  author :: "string option"
  created_at :: int
  updated_at :: int
  document_id :: string
  file_path :: string
  format :: "string option"
  cover_path :: "string option"

record progress =
  document_id :: uuid
  user_id :: "uuid option"
  percentage :: real
  progress_detail :: string
  device_name :: string
  device_id :: "uuid option"
  timestamp :: int

text \<open>Exceptions the modelled code could raise.\<close>

datatype error = IndexError | ZeroDivisionError | TimestampError | ValidationError

section \<open>Python list primitives\<close>

text \<open>\<open>xs[0]\<close>: raises IndexError on the empty list.\<close>

definition index0 :: "'a list \<Rightarrow> error + 'a" where
  "index0 xs = (case xs of [] \<Rightarrow> Inl IndexError | x # _ \<Rightarrow> Inr x)"

text \<open>
  \<open>xs.sort(key=f)\<close> is a stable ascending sort, which is \<^const>\<open>sort_key\<close>.
  \<open>xs.sort(key=f, reverse=True)\<close> reverses the list, sorts it stably and reverses the
  result: descending keys, equal keys in their original order.
\<close>

definition sort_key_reverse :: "('a \<Rightarrow> 'k::linorder) \<Rightarrow> 'a list \<Rightarrow> 'a list" where
  "sort_key_reverse f xs = rev (sort_key f (rev xs))"


section \<open>InMemoryProgressRepository\<close>

text \<open>The repository's state is its list \<open>_progress_entries\<close>.\<close>

type_synonym progress_entries = "progress list"

text \<open>
  The \<open>for entry in self._progress_entries\<close> loop of \<open>save_progress\<close>, with its two
  loop variables \<open>new_entries\<close> and \<open>updated\<close>.
\<close>

fun save_loop ::
  "progress \<Rightarrow> progress list \<Rightarrow> progress list \<Rightarrow> bool \<Rightarrow> progress list \<times> bool" where
  "save_loop p [] new_entries updated = (new_entries, updated)"
| "save_loop p (entry # rest) new_entries updated =
     (if progress.document_id entry = progress.document_id p
         \<and> device_id entry = device_id p
      then
        (if timestamp p \<ge> timestamp entry
         then (if \<not> updated
               then save_loop p rest (new_entries @ [p]) True
               else save_loop p rest new_entries updated)
         else save_loop p rest (new_entries @ [entry]) updated)
      else save_loop p rest (new_entries @ [entry]) updated)"

text \<open>\<open>save_progress\<close> returns the value handed back to the caller and the new state.\<close>

definition save_progress :: "progress \<Rightarrow> progress_entries \<Rightarrow> progress \<times> progress_entries" where
  "save_progress p entries =
     (case save_loop p entries [] False of
        (new_entries, updated) \<Rightarrow>
          (p, if \<not> updated then new_entries @ [p] else new_entries))"

definition get_latest_progress ::
  "progress_entries \<Rightarrow> uuid \<Rightarrow> uuid \<Rightarrow> error + progress option" where
  "get_latest_progress entries doc usr =
     (let user_doc_progress =
            filter (\<lambda>p. progress.document_id p = doc \<and> user_id p = Some usr) entries
      in if user_doc_progress = [] then Inr None
         else (case index0 (sort_key_reverse timestamp user_doc_progress) of
                 Inl e \<Rightarrow> Inl e
               | Inr p \<Rightarrow> Inr (Some p)))"

definition get_all_progress_for_user :: "progress_entries \<Rightarrow> uuid \<Rightarrow> progress list" where
  "get_all_progress_for_user entries usr =
     sort_key_reverse (\<lambda>p. (progress.document_id p, timestamp p))
       (filter (\<lambda>p. user_id p = Some usr) entries)"

definition get_progress_for_document_and_device ::
  "progress_entries \<Rightarrow> uuid \<Rightarrow> uuid \<Rightarrow> error + progress option" where
  "get_progress_for_document_and_device entries doc dev =
     (let doc_device_progress =
            filter (\<lambda>p. progress.document_id p = doc \<and> device_id p = Some dev) entries
      in if doc_device_progress = [] then Inr None
         else (case index0 (sort_key_reverse timestamp doc_device_progress) of
                 Inl e \<Rightarrow> Inl e
               | Inr p \<Rightarrow> Inr (Some p)))"

text \<open>The state reached from the empty repository by a sequence of \<open>save_progress\<close> calls.\<close>

definition save_all :: "progress list \<Rightarrow> progress_entries" where
  "save_all ps = foldl (\<lambda>entries p. snd (save_progress p entries)) [] ps"

section \<open>Constructing a \<open>Progress\<close>\<close>

text \<open>
  \<open>Progress(...)\<close> is a pydantic model construction from keyword arguments.  The
  repository runs on pydantic 2 (\<open>core/config.py\<close> imports \<open>pydantic_settings\<close>), which
  ignores the pydantic 1 configuration key \<open>allow_population_by_field_name\<close> set in the
  model's \<open>Config\<close>: a field declared with an alias (\<open>document\<close>, \<open>progress\<close>,
  \<open>device\<close>) is read under its alias only, the other fields under their names, and
  keywords that name no field are ignored.  A missing required field or a value of the
  wrong type raises \<open>ValidationError\<close>.  No field carries a range constraint.
\<close>

datatype pyval = PyNone | PyUUID uuid | PyFloat real | PyStr string | PyDatetime int

fun uuid_field :: "pyval option \<Rightarrow> error + uuid" where
  "uuid_field (Some (PyUUID u)) = Inr u"
| "uuid_field _ = Inl ValidationError"

fun optional_uuid_field :: "pyval option \<Rightarrow> error + uuid option" where
  "optional_uuid_field None = Inr None"
| "optional_uuid_field (Some PyNone) = Inr None"
| "optional_uuid_field (Some (PyUUID u)) = Inr (Some u)"
| "optional_uuid_field _ = Inl ValidationError"

fun float_field :: "pyval option \<Rightarrow> error + real" where
  "float_field (Some (PyFloat x)) = Inr x"
| "float_field _ = Inl ValidationError"

fun str_field :: "pyval option \<Rightarrow> error + string" where
  "str_field (Some (PyStr s)) = Inr s"
| "str_field _ = Inl ValidationError"

fun datetime_field :: "pyval option \<Rightarrow> error + int" where
  "datetime_field (Some (PyDatetime t)) = Inr t"
| "datetime_field _ = Inl ValidationError"

definition Progress_init :: "(string \<rightharpoonup> pyval) \<Rightarrow> error + progress" where
  "Progress_init kwargs =
     (case uuid_field (kwargs ''document'') of Inl e \<Rightarrow> Inl e | Inr doc \<Rightarrow>
      case optional_uuid_field (kwargs ''user_id'') of Inl e \<Rightarrow> Inl e | Inr usr \<Rightarrow>
      case float_field (kwargs ''percentage'') of Inl e \<Rightarrow> Inl e | Inr pct \<Rightarrow>
      case str_field (kwargs ''progress'') of Inl e \<Rightarrow> Inl e | Inr detail \<Rightarrow>
      case str_field (kwargs ''device'') of Inl e \<Rightarrow> Inl e | Inr dev_name \<Rightarrow>
      case optional_uuid_field (kwargs ''device_id'') of Inl e \<Rightarrow> Inl e | Inr dev \<Rightarrow>
      case datetime_field (kwargs ''timestamp'') of Inl e \<Rightarrow> Inl e | Inr t \<Rightarrow>
        Inr \<lparr> progress.document_id = doc,
              user_id = usr,
              percentage = pct,
              progress_detail = detail,
              device_name = dev_name,
              device_id = dev,
              timestamp = t \<rparr>)"

section \<open>ProgressService\<close>



section \<open>InMemoryStatsRepository\<close>

text \<open>
  A Python \<open>dict\<close> keeps its keys in insertion order, so it is an association list:
  \<open>d[k] = v\<close> is \<^const>\<open>AList.update\<close> (in place for a known key, at the end for a new
  one) and \<open>k in d\<close> / \<open>d[k]\<close> read \<^const>\<open>map_of\<close>.

  The loop shared by four statistics, building \<open>latest_progress_per_book\<close>:
  an entry replaces the one kept for its document only when its timestamp is strictly
  greater.
\<close>

definition latest_step :: "(uuid \<times> progress) list \<Rightarrow> progress \<Rightarrow> (uuid \<times> progress) list" where
  "latest_step latest p =
     (case map_of latest (progress.document_id p) of
        None \<Rightarrow> AList.update (progress.document_id p) p latest
      | Some q \<Rightarrow>
          if timestamp p > timestamp q
          then AList.update (progress.document_id p) p latest
          else latest)"

definition latest_progress_per_book :: "progress list \<Rightarrow> (uuid \<times> progress) list" where
  "latest_progress_per_book all_progress = foldl latest_step [] all_progress"

definition get_total_books_started :: "progress_entries \<Rightarrow> uuid \<Rightarrow> int" where
  "get_total_books_started entries usr =
     (let all_progress = get_all_progress_for_user entries usr
      in if all_progress = [] then 0
         else int (length (remdups
                (map progress.document_id (filter (\<lambda>p. percentage p > 0) all_progress)))))"

text \<open>\<open>progress_by_doc[p.document_id].append(p)\<close> on a \<open>defaultdict(list)\<close>.\<close>

definition group_step ::
  "(uuid \<times> progress list) list \<Rightarrow> progress \<Rightarrow> (uuid \<times> progress list) list" where
  "group_step progress_by_doc p =
     (case map_of progress_by_doc (progress.document_id p) of
        None \<Rightarrow> AList.update (progress.document_id p) [p] progress_by_doc
      | Some ps \<Rightarrow> AList.update (progress.document_id p) (ps @ [p]) progress_by_doc)"

definition MAX_SESSION_GAP_SECONDS :: int where
  "MAX_SESSION_GAP_SECONDS = 2 * 60 * 60"

text \<open>The inner loop over \<open>range(len(progresses) - 1)\<close>, adding to \<open>total_time\<close>.\<close>

fun pair_loop :: "int \<Rightarrow> progress list \<Rightarrow> int" where
  "pair_loop total_time (a # b # rest) =
     (let time_diff = timestamp b - timestamp a
      in pair_loop
           (if time_diff < MAX_SESSION_GAP_SECONDS \<and> time_diff > 0
            then (if percentage b > percentage a then total_time + time_diff else total_time)
            else total_time)
           (b # rest))"
| "pair_loop total_time [a] = total_time"
| "pair_loop total_time [] = total_time"

definition doc_step :: "int \<Rightarrow> uuid \<times> progress list \<Rightarrow> int" where
  "doc_step total_time item =
     (case item of
        (doc_id, progresses) \<Rightarrow>
          if length progresses < 2 then total_time
          else pair_loop total_time (sort_key timestamp progresses))"

definition get_total_reading_time_estimate :: "progress_entries \<Rightarrow> uuid \<Rightarrow> int" where
  "get_total_reading_time_estimate entries usr =
     (let all_progress = get_all_progress_for_user entries usr
      in if all_progress = [] \<or> length all_progress < 2 then 0
         else let sorted_progress = sort_key timestamp all_progress;
                  progress_by_doc = foldl group_step [] sorted_progress
              in foldl doc_step 0 progress_by_doc)"



text \<open>
  \<open>strftime\<close> on the proleptic Gregorian calendar of the standard library, for the three
  directives the repository uses, as the C library prints them on Linux: the month and
  the day with two digits, the year (1 to 9999 for a \<open>datetime\<close>) as a decimal number
  without padding, so that a year below 1000 has fewer than four digits.
\<close>

definition civil_from_days :: "int \<Rightarrow> int \<times> int \<times> int" where
  "civil_from_days days =
     (let z = days + 719468;
          era = z div 146097;
          doe = z - era * 146097;
          yoe = (doe - doe div 1460 + doe div 36524 - doe div 146096) div 365;
          doy = doe - (365 * yoe + yoe div 4 - yoe div 100);
          mp = (5 * doy + 2) div 153;
          d = doy - (153 * mp + 2) div 5 + 1;
          m = (if mp < 10 then mp + 3 else mp - 9);
          y = yoe + era * 400 + (if m \<le> 2 then 1 else 0)
      in (y, m, d))"

definition digit :: "int \<Rightarrow> char" where
  "digit n = ''0123456789'' ! nat (n mod 10)"

fun decimal :: "nat \<Rightarrow> string" where
  "decimal n = (if n < 10 then [digit (int n)] else decimal (n div 10) @ [digit (int n)])"

declare decimal.simps [simp del]

definition directive :: "int \<Rightarrow> char \<Rightarrow> string" where
  "directive t c =
     (case civil_from_days (t div 86400) of
        (y, m, d) \<Rightarrow>
          if c = CHR ''Y'' then decimal (nat y)
          else if c = CHR ''m'' then [digit (m div 10), digit m]
          else if c = CHR ''d'' then [digit (d div 10), digit d]
          else [CHR ''%'', c])"

fun strftime :: "int \<Rightarrow> string \<Rightarrow> string" where
  "strftime t (c # d # cs) =
     (if c = CHR ''%'' then directive t d @ strftime t cs else c # strftime t (d # cs))"
| "strftime t cs = cs"

text \<open>\<open>activity[period_key] += 1\<close> on a \<open>defaultdict(float)\<close>.\<close>

definition activity_step ::
  "string \<Rightarrow> (string \<times> real) list \<Rightarrow> uuid \<times> progress \<Rightarrow> (string \<times> real) list" where
  "activity_step period activity item =
     (case item of
        (doc_id, p) \<Rightarrow>
          if percentage p \<ge> 0.95
          then (let period_key =
                      (if period = ''month'' then strftime (timestamp p) ''%Y-%m''
                       else if period = ''year'' then strftime (timestamp p) ''%Y''
                       else strftime (timestamp p) ''%Y-%m-%d'')
                in AList.update period_key
                     ((case map_of activity period_key of None \<Rightarrow> 0 | Some v \<Rightarrow> v) + 1)
                     activity)
          else activity)"

definition get_reading_activity_over_time ::
  "progress_entries \<Rightarrow> uuid \<Rightarrow> string \<Rightarrow> (string \<times> real) list" where
  "get_reading_activity_over_time entries usr period =
     (let all_progress = get_all_progress_for_user entries usr
      in if all_progress = [] then []
         else let latest = latest_progress_per_book all_progress;
                  activity = foldl (activity_step period) [] latest
              in sort activity)"

text \<open>\<open>total_percentage / n\<close>: raises ZeroDivisionError for \<open>n = 0\<close>.\<close>

definition py_div :: "real \<Rightarrow> nat \<Rightarrow> error + real" where
  "py_div total_percentage n =
     (if n = 0 then Inl ZeroDivisionError else Inr (total_percentage / real n))"

definition get_average_read_percentage :: "progress_entries \<Rightarrow> uuid \<Rightarrow> error + real option" where
  "get_average_read_percentage entries usr =
     (let all_progress = get_all_progress_for_user entries usr
      in if all_progress = [] then Inr None
         else let latest = latest_progress_per_book all_progress
              in if latest = [] then Inr None
                 else (case py_div (sum_list (map (\<lambda>item. percentage (snd item)) latest))
                              (length latest) of
                         Inl e \<Rightarrow> Inl e
                       | Inr v \<Rightarrow> Inr (Some v)))"

section \<open>The statistics in the specification's words\<close>

text \<open>The documents of a feed, each once, in order of first appearance.\<close>

definition documents_of :: "progress list \<Rightarrow> uuid list" where
  "documents_of feed = rev (remdups (rev (map progress.document_id feed)))"

text \<open>
  The representative entry of a document: the first entry of the document whose
  timestamp is maximal among the document's entries in the feed.
\<close>

definition representative :: "progress list \<Rightarrow> uuid \<Rightarrow> progress option" where
  "representative feed doc =
     find (\<lambda>p. progress.document_id p = doc
              \<and> (\<forall>q \<in> set feed. progress.document_id q = doc \<longrightarrow> timestamp q \<le> timestamp p))
       feed"

definition representatives :: "progress list \<Rightarrow> (uuid \<times> progress) list" where
  "representatives feed =
     List.map_filter (\<lambda>doc. map_option (Pair doc) (representative feed doc)) (documents_of feed)"


text \<open>
  Reading time: a pair of consecutive samples counts its time delta when the delta is
  strictly positive, strictly below the two-hour cap, and the percentage strictly
  increased; a document contributes the counted deltas of its samples in ascending
  timestamp order.
\<close>

definition counted_delta :: "progress \<Rightarrow> progress \<Rightarrow> int" where
  "counted_delta a b =
     (if 0 < timestamp b - timestamp a \<and> timestamp b - timestamp a < 7200
         \<and> percentage a < percentage b
      then timestamp b - timestamp a else 0)"

definition consecutive_sum :: "progress list \<Rightarrow> int" where
  "consecutive_sum samples =
     sum_list (map (\<lambda>(a, b). counted_delta a b) (zip samples (tl samples)))"

definition reading_time_spec :: "progress list \<Rightarrow> int" where
  "reading_time_spec feed =
     sum_list (map (\<lambda>doc. consecutive_sum
                             (sort_key timestamp
                                (filter (\<lambda>p. progress.document_id p = doc) feed)))
                 (documents_of feed))"

text \<open>The day-level key of an entry.\<close>

definition day_key :: "progress \<Rightarrow> string" where
  "day_key e = strftime (timestamp e) ''%Y-%m-%d''"

text \<open>The finished representatives of a feed whose day-level key is \<open>k\<close>.\<close>

definition finished_on :: "progress list \<Rightarrow> string \<Rightarrow> (uuid \<times> progress) list" where
  "finished_on feed k =
     filter (\<lambda>(doc, e). percentage e \<ge> 0.95 \<and> day_key e = k) (representatives feed)"

section \<open>Sample entries\<close>

definition sample :: "uuid \<Rightarrow> uuid option \<Rightarrow> int \<Rightarrow> real \<Rightarrow> progress" where
  "sample doc dev t pct =
     \<lparr> progress.document_id = doc, user_id = Some 7, percentage = pct,
       progress_detail = [], device_name = ''KOReader'', device_id = dev, timestamp = t \<rparr>"


lemma sample_sel [simp]:
  "progress.document_id (sample doc dev t pct) = doc"
  "user_id (sample doc dev t pct) = Some 7"
  "percentage (sample doc dev t pct) = pct"
  "device_id (sample doc dev t pct) = dev"
  "timestamp (sample doc dev t pct) = t"
  by (simp_all add: sample_def)

lemma sample_eq_iff [simp]:
  "sample doc dev t pct = sample doc' dev' t' pct'
     \<longleftrightarrow> doc = doc' \<and> dev = dev' \<and> t = t' \<and> pct = pct'"
  by (auto simp: sample_def)

section \<open>Sorting and lookups\<close>

lemma set_sort_key_reverse [simp]: "set (sort_key_reverse f xs) = set xs"
  by (simp add: sort_key_reverse_def)

lemma mset_sort_key_reverse [simp]: "mset (sort_key_reverse f xs) = mset xs"
  by (simp add: sort_key_reverse_def)

lemma length_sort_key_reverse [simp]: "length (sort_key_reverse f xs) = length xs"
  by (simp add: sort_key_reverse_def)

lemma sort_key_reverse_Nil_iff [simp]: "sort_key_reverse f xs = [] \<longleftrightarrow> xs = []"
  using length_sort_key_reverse [of f xs] by (metis length_0_conv)

lemma sort_key_reverse_descending: "sorted (rev (map f (sort_key_reverse f xs)))"
  by (simp add: sort_key_reverse_def rev_map [symmetric])

lemma filter_sort_key_reverse:
  "filter P (sort_key_reverse f xs) = sort_key_reverse f (filter P xs)"
proof -
  have "filter P (rev (sort_key f (rev xs))) = rev (filter P (sort_key f (rev xs)))"
    by (simp only: rev_filter)
  also have "\<dots> = rev (sort_key f (filter P (rev xs)))"
    by (simp only: filter_sort)
  also have "\<dots> = rev (sort_key f (rev (filter P xs)))"
    by (simp only: rev_filter)
  finally show ?thesis by (simp only: sort_key_reverse_def)
qed

lemma index0_Inr_iff: "index0 xs = Inr x \<longleftrightarrow> (\<exists>ys. xs = x # ys)"
  by (cases xs) (auto simp: index0_def)

lemma index0_Inl_iff: "index0 xs = Inl e \<longleftrightarrow> xs = [] \<and> e = IndexError"
  by (cases xs) (auto simp: index0_def)

lemma index0_sort_key_reverse:
  assumes "index0 (sort_key_reverse f xs) = Inr e"
  shows "e \<in> set xs" and "\<forall>x \<in> set xs. f x \<le> f e"
proof -
  from assms obtain ys where ys: "sort_key_reverse f xs = e # ys"
    by (auto simp: index0_Inr_iff)
  have "set (e # ys) = set xs" using ys set_sort_key_reverse [of f xs] by simp
  then show "e \<in> set xs" by auto
  have "sorted (rev (map f (e # ys)))"
    using sort_key_reverse_descending [of f xs] ys by simp
  then have "\<forall>y \<in> set ys. f y \<le> f e"
    by (auto simp: sorted_append)
  with \<open>set (e # ys) = set xs\<close> show "\<forall>x \<in> set xs. f x \<le> f e" by auto
qed

lemma get_latest_progress_total:
  "\<exists>r. get_latest_progress entries doc usr = Inr r"
  by (auto simp: get_latest_progress_def Let_def index0_Inl_iff split: sum.splits)

lemma get_latest_progress_None:
  "get_latest_progress entries doc usr = Inr None
     \<longleftrightarrow> (\<forall>e \<in> set entries. \<not> (progress.document_id e = doc \<and> user_id e = Some usr))"
  by (auto simp: get_latest_progress_def Let_def filter_empty_conv split: sum.splits)

lemma get_latest_progress_Some:
  assumes "get_latest_progress entries doc usr = Inr (Some e)"
  shows "e \<in> set entries" "progress.document_id e = doc" "user_id e = Some usr"
    "\<forall>q \<in> set entries. progress.document_id q = doc \<and> user_id q = Some usr
        \<longrightarrow> timestamp q \<le> timestamp e"
proof -
  let ?m = "filter (\<lambda>p. progress.document_id p = doc \<and> user_id p = Some usr) entries"
  from assms have i: "index0 (sort_key_reverse timestamp ?m) = Inr e"
    by (auto simp: get_latest_progress_def Let_def split: if_splits sum.splits)
  from index0_sort_key_reverse [OF i]
  have "e \<in> set ?m" and mx: "\<forall>x \<in> set ?m. timestamp x \<le> timestamp e" by auto
  then show "e \<in> set entries" "progress.document_id e = doc" "user_id e = Some usr" by auto
  from mx show "\<forall>q \<in> set entries. progress.document_id q = doc \<and> user_id q = Some usr
        \<longrightarrow> timestamp q \<le> timestamp e" by auto
qed

lemma get_device_progress_total:
  "\<exists>r. get_progress_for_document_and_device entries doc dev = Inr r"
  by (auto simp: get_progress_for_document_and_device_def Let_def index0_Inl_iff split: sum.splits)

lemma get_device_progress_None:
  "get_progress_for_document_and_device entries doc dev = Inr None
     \<longleftrightarrow> (\<forall>e \<in> set entries. \<not> (progress.document_id e = doc \<and> device_id e = Some dev))"
  by (auto simp: get_progress_for_document_and_device_def Let_def filter_empty_conv split: sum.splits)

lemma get_device_progress_Some:
  assumes "get_progress_for_document_and_device entries doc dev = Inr (Some e)"
  shows "e \<in> set entries" "progress.document_id e = doc" "device_id e = Some dev"
    "\<forall>q \<in> set entries. progress.document_id q = doc \<and> device_id q = Some dev
        \<longrightarrow> timestamp q \<le> timestamp e"
proof -
  let ?m = "filter (\<lambda>p. progress.document_id p = doc \<and> device_id p = Some dev) entries"
  from assms have i: "index0 (sort_key_reverse timestamp ?m) = Inr e"
    by (auto simp: get_progress_for_document_and_device_def Let_def split: if_splits sum.splits)
  from index0_sort_key_reverse [OF i]
  have "e \<in> set ?m" and mx: "\<forall>x \<in> set ?m. timestamp x \<le> timestamp e" by auto
  then show "e \<in> set entries" "progress.document_id e = doc" "device_id e = Some dev" by auto
  from mx show "\<forall>q \<in> set entries. progress.document_id q = doc \<and> device_id q = Some dev
        \<longrightarrow> timestamp q \<le> timestamp e" by auto
qed

subsection \<open>The loop of \<open>save_progress\<close>\<close>

lemma save_loop_filter_other:
  assumes "\<And>e. P e \<Longrightarrow> \<not> (progress.document_id e = progress.document_id p \<and> device_id e = device_id p)"
  shows "filter P (fst (save_loop p entries acc u)) = filter P acc @ filter P entries"
  using assms
proof (induction entries arbitrary: acc u)
  case Nil
  then show ?case by simp
next
  case (Cons entry rest)
  have np: "\<not> P p" using Cons.prems by blast
  show ?case
    using Cons.IH [OF Cons.prems] Cons.prems [of entry] np by auto
qed

lemma save_progress_filter_other:
  assumes "\<And>e. P e \<Longrightarrow> \<not> (progress.document_id e = progress.document_id p \<and> device_id e = device_id p)"
  shows "filter P (snd (save_progress p entries)) = filter P entries"
proof -
  have np: "\<not> P p" using assms by blast
  show ?thesis
    using save_loop_filter_other [of P p entries "[]" False, OF assms] np
    by (auto simp: save_progress_def split: prod.splits)
qed

lemma save_loop_set:
  "set (fst (save_loop p entries acc u)) \<subseteq> set acc \<union> set entries \<union> {p}"
proof (induction p entries acc u rule: save_loop.induct)
  case (1 p new_entries updated)
  then show ?case by auto
next
  case (2 p entry rest new_entries updated)
  then show ?case by (auto split: if_splits)
qed

lemma save_loop_shape: "\<exists>ys b. \<forall>acc. save_loop p entries acc u = (acc @ ys, b)"
proof (induction entries arbitrary: u)
  case Nil
  then show ?case by simp
next
  case (Cons e es)
  from Cons.IH [of u] obtain ys1 b1 where
    h1: "\<And>acc. save_loop p es acc u = (acc @ ys1, b1)" by blast
  from Cons.IH [of True] obtain ys2 b2 where
    h2: "\<And>acc. save_loop p es acc True = (acc @ ys2, b2)" by blast
  show ?case
  proof (cases "progress.document_id e = progress.document_id p \<and> device_id e = device_id p")
    case same: True
    show ?thesis
    proof (cases "timestamp p \<ge> timestamp e")
      case True
      show ?thesis
      proof (cases u)
        case True
        with same \<open>timestamp p \<ge> timestamp e\<close> h1 show ?thesis by simp
      next
        case False
        with same \<open>timestamp p \<ge> timestamp e\<close> h2
        have "\<forall>acc. save_loop p (e # es) acc u = (acc @ (p # ys2), b2)" by simp
        then show ?thesis by blast
      qed
    next
      case False
      with same h1 have "\<forall>acc. save_loop p (e # es) acc u = (acc @ (e # ys1), b1)" by simp
      then show ?thesis by blast
    qed
  next
    case False
    with h1 have "\<forall>acc. save_loop p (e # es) acc u = (acc @ (e # ys1), b1)" by auto
    then show ?thesis by blast
  qed
qed

lemma save_loop_acc:
  "save_loop p entries acc u
     = (acc @ fst (save_loop p entries [] u), snd (save_loop p entries [] u))"
proof -
  from save_loop_shape [of p entries u] obtain ys b where
    h: "\<And>acc. save_loop p entries acc u = (acc @ ys, b)" by blast
  show ?thesis using h [of acc] h [of "[]"] by simp
qed

lemma save_loop_updated:
  "snd (save_loop p entries acc u) \<Longrightarrow> u \<or> p \<in> set (fst (save_loop p entries acc u))"
proof (induction entries arbitrary: acc u)
  case Nil
  then show ?case by simp
next
  case (Cons e es)
  show ?case
    using Cons.prems Cons.IH [of "acc @ [e]" u] Cons.IH [of acc u]
      save_loop_acc [of p es "acc @ [p]" True]
    by (auto split: if_splits)
qed

lemma save_progress_member: "p \<in> set (snd (save_progress p entries))"
  using save_loop_updated [of p entries "[]" False]
  by (auto simp: save_progress_def split: prod.splits)

lemma save_progress_subset: "set (snd (save_progress p entries)) \<subseteq> insert p (set entries)"
  using save_loop_set [of p entries "[]" False]
  by (auto simp: save_progress_def split: prod.splits)

lemma save_loop_keeps:
  assumes "e \<in> set entries"
    and "\<not> (progress.document_id e = progress.document_id p \<and> device_id e = device_id p
            \<and> timestamp e \<le> timestamp p)"
  shows "e \<in> set (fst (save_loop p entries acc u))"
  using assms
proof (induction entries arbitrary: acc u)
  case Nil
  then show ?case by simp
next
  case (Cons x xs)
  show ?case
  proof (cases "e = x")
    case True
    have "save_loop p (x # xs) acc u = save_loop p xs (acc @ [x]) u"
      using Cons.prems(2) True by auto
    then show ?thesis
      using save_loop_acc [of p xs "acc @ [x]" u] True by simp
  next
    case False
    with Cons.prems have "e \<in> set xs" by simp
    from Cons.IH [OF this Cons.prems(2)] show ?thesis by simp
  qed
qed

lemma save_progress_keeps:
  assumes "e \<in> set entries"
    and "\<not> (progress.document_id e = progress.document_id p \<and> device_id e = device_id p
            \<and> timestamp e \<le> timestamp p)"
  shows "e \<in> set (snd (save_progress p entries))"
  using save_loop_keeps [OF assms, of "[]" False]
  by (auto simp: save_progress_def split: prod.splits)

lemma descending_nth:
  fixes xs :: "('k::linorder) list"
  assumes "sorted (rev xs)" "i < j" "j < length xs"
  shows "xs ! j \<le> xs ! i"
proof -
  from assms(1) have "sorted_wrt (\<lambda>x y. y \<le> x) xs"
    using sorted_wrt_rev [of "(\<le>)" xs] by simp
  with assms(2,3) show ?thesis
    by (simp add: sorted_wrt_iff_nth_less)
qed

lemma get_all_progress_for_user_Nil_iff:
  "get_all_progress_for_user entries usr = [] \<longleftrightarrow> (\<forall>e \<in> set entries. user_id e \<noteq> Some usr)"
  by (simp add: get_all_progress_for_user_def filter_empty_conv)

lemma get_average_read_percentage_total:
  "\<exists>r. get_average_read_percentage entries usr = Inr r"
  by (simp add: get_average_read_percentage_def Let_def py_div_def)

subsection \<open>The latest entry per document\<close>

lemma find_append:
  "find P (xs @ ys) = (case find P xs of None \<Rightarrow> find P ys | Some x \<Rightarrow> Some x)"
  by (induction xs) simp_all

lemma documents_of_snoc:
  "documents_of (xs @ [p])
     = (if progress.document_id p \<in> set (documents_of xs) then documents_of xs
        else documents_of xs @ [progress.document_id p])"
  by (simp add: documents_of_def)

lemma set_documents_of [simp]: "set (documents_of xs) = progress.document_id ` set xs"
  by (simp add: documents_of_def)

lemma distinct_documents_of [simp]: "distinct (documents_of xs)"
  by (simp add: documents_of_def)

lemma latest_snoc:
  "latest_progress_per_book (xs @ [p]) = latest_step (latest_progress_per_book xs) p"
  by (simp add: latest_progress_per_book_def)

lemma latest_step_keys:
  "map fst (latest_step l p)
     = (if progress.document_id p \<in> set (map fst l) then map fst l
        else map fst l @ [progress.document_id p])"
  by (auto simp: latest_step_def update_keys map_of_eq_None_iff split: option.splits
      dest: map_of_SomeD intro: rev_image_eqI)

lemma latest_keys: "map fst (latest_progress_per_book xs) = documents_of xs"
proof (induction xs rule: rev_induct)
  case Nil
  show ?case by (simp add: latest_progress_per_book_def documents_of_def)
next
  case (snoc p xs)
  show ?case
    unfolding latest_snoc latest_step_keys snoc.IH documents_of_snoc ..
qed

lemma exists_latest:
  assumes "ys \<noteq> []"
  shows "\<exists>e \<in> set ys. \<forall>q \<in> set ys. timestamp q \<le> timestamp e"
proof -
  have fin: "finite (timestamp ` set ys)" and ne: "timestamp ` set ys \<noteq> {}"
    using assms by simp_all
  from Max_in [OF fin ne] obtain e where e: "e \<in> set ys" "timestamp e = Max (timestamp ` set ys)"
    by auto
  have "\<forall>q \<in> set ys. timestamp q \<le> timestamp e"
    using Max_ge [OF fin] e(2) by simp
  with e(1) show ?thesis by blast
qed

lemma representative_None:
  "representative xs d = None \<longleftrightarrow> d \<notin> progress.document_id ` set xs"
proof
  assume n: "representative xs d = None"
  show "d \<notin> progress.document_id ` set xs"
  proof
    assume "d \<in> progress.document_id ` set xs"
    then have "filter (\<lambda>p. progress.document_id p = d) xs \<noteq> []"
      by (auto simp: filter_empty_conv)
    from exists_latest [OF this] obtain e where
      "e \<in> set xs" "progress.document_id e = d"
      "\<forall>q \<in> set xs. progress.document_id q = d \<longrightarrow> timestamp q \<le> timestamp e"
      by auto
    with n show False
      unfolding representative_def find_None_iff by blast
  qed
next
  assume "d \<notin> progress.document_id ` set xs"
  then show "representative xs d = None"
    unfolding representative_def find_None_iff by auto
qed

lemma representative_Some:
  assumes "representative xs d = Some q"
  shows "q \<in> set xs" "progress.document_id q = d"
    "\<forall>e \<in> set xs. progress.document_id e = d \<longrightarrow> timestamp e \<le> timestamp q"
proof -
  from assms obtain i where i: "i < length xs" "xs ! i = q"
    "progress.document_id q = d
       \<and> (\<forall>e \<in> set xs. progress.document_id e = d \<longrightarrow> timestamp e \<le> timestamp q)"
    unfolding representative_def find_Some_iff by blast
  from i(1,2) show "q \<in> set xs" by auto
  from i(3) show "progress.document_id q = d"
    "\<forall>e \<in> set xs. progress.document_id e = d \<longrightarrow> timestamp e \<le> timestamp q" by auto
qed


lemma representative_snoc_other:
  assumes "progress.document_id p \<noteq> d"
  shows "representative (xs @ [p]) d = representative xs d"
proof -
  have "find (\<lambda>e. progress.document_id e = d
              \<and> (\<forall>q \<in> set (xs @ [p]). progress.document_id q = d \<longrightarrow> timestamp q \<le> timestamp e)) xs
      = find (\<lambda>e. progress.document_id e = d
              \<and> (\<forall>q \<in> set xs. progress.document_id q = d \<longrightarrow> timestamp q \<le> timestamp e)) xs"
    using assms by (intro find_cong) auto
  then show ?thesis
    using assms by (simp add: representative_def find_append split: option.splits)
qed

lemma representative_snoc_first:
  assumes "progress.document_id p = d" "representative xs d = None"
  shows "representative (xs @ [p]) d = Some p"
proof -
  from assms(2) have no: "\<forall>e \<in> set xs. progress.document_id e \<noteq> d"
    by (auto simp: representative_None)
  then have "find (\<lambda>e. progress.document_id e = d
              \<and> (\<forall>q \<in> set (xs @ [p]). progress.document_id q = d \<longrightarrow> timestamp q \<le> timestamp e)) xs
      = None"
    by (auto simp: find_None_iff)
  then show ?thesis
    using assms(1) no by (simp add: representative_def find_append)
qed

lemma representative_snoc_newer:
  assumes "progress.document_id p = d" "representative xs d = Some q"
    "timestamp q < timestamp p"
  shows "representative (xs @ [p]) d = Some p"
proof -
  note r = representative_Some [OF assms(2)]
  have "find (\<lambda>e. progress.document_id e = d
              \<and> (\<forall>q \<in> set (xs @ [p]). progress.document_id q = d \<longrightarrow> timestamp q \<le> timestamp e)) xs
      = None"
    unfolding find_None_iff using r(3) assms(1,3) by fastforce
  moreover have "\<forall>e \<in> set xs. progress.document_id e = d \<longrightarrow> timestamp e \<le> timestamp p"
    using r(3) assms(3) by fastforce
  ultimately show ?thesis
    using assms(1) by (simp add: representative_def find_append)
qed

lemma representative_snoc_older:
  assumes "progress.document_id p = d" "representative xs d = Some q"
    "\<not> timestamp q < timestamp p"
  shows "representative (xs @ [p]) d = Some q"
proof -
  note r = representative_Some [OF assms(2)]
  have "find (\<lambda>e. progress.document_id e = d
              \<and> (\<forall>q \<in> set (xs @ [p]). progress.document_id q = d \<longrightarrow> timestamp q \<le> timestamp e)) xs
      = find (\<lambda>e. progress.document_id e = d
              \<and> (\<forall>q \<in> set xs. progress.document_id q = d \<longrightarrow> timestamp q \<le> timestamp e)) xs"
  proof (intro find_cong refl)
    fix e assume "e \<in> set xs"
    show "(progress.document_id e = d
             \<and> (\<forall>q \<in> set (xs @ [p]). progress.document_id q = d \<longrightarrow> timestamp q \<le> timestamp e))
        = (progress.document_id e = d
             \<and> (\<forall>q \<in> set xs. progress.document_id q = d \<longrightarrow> timestamp q \<le> timestamp e))"
      using r(1,2) assms(1,3) by fastforce
  qed
  also have "\<dots> = Some q" using assms(2) by (simp only: representative_def)
  finally show ?thesis
    by (simp add: representative_def find_append)
qed

lemma map_of_latest: "map_of (latest_progress_per_book xs) d = representative xs d"
proof (induction xs rule: rev_induct)
  case Nil
  show ?case by (simp add: latest_progress_per_book_def representative_def)
next
  case (snoc p xs)
  let ?l = "latest_progress_per_book xs"
  show ?case
  proof (cases "progress.document_id p = d")
    case False
    then have "map_of (latest_step ?l p) d = map_of ?l d"
      by (simp add: latest_step_def update_conv' split: option.splits)
    with False snoc.IH show ?thesis
      by (simp add: latest_snoc representative_snoc_other)
  next
    case True
    show ?thesis
    proof (cases "representative xs d")
      case None
      with snoc.IH True have "map_of (latest_step ?l p) d = Some p"
        by (simp add: latest_step_def update_conv')
      with None True show ?thesis
        by (simp add: latest_snoc representative_snoc_first)
    next
      case (Some q)
      show ?thesis
      proof (cases "timestamp q < timestamp p")
        case newer: True
        with snoc.IH True Some have "map_of (latest_step ?l p) d = Some p"
          by (simp add: latest_step_def update_conv')
        with newer True Some show ?thesis
          by (simp add: latest_snoc representative_snoc_newer)
      next
        case older: False
        with snoc.IH True Some have "map_of (latest_step ?l p) d = Some q"
          by (simp add: latest_step_def)
        with older True Some show ?thesis
          by (simp add: latest_snoc representative_snoc_older)
      qed
    qed
  qed
qed

lemma alist_rebuild:
  assumes "distinct (map fst l)"
  shows "List.map_filter (\<lambda>k. map_option (Pair k) (map_of l k)) (map fst l) = l"
  using assms
proof (induction l)
  case Nil
  show ?case by (simp add: List.map_filter_simps)
next
  case (Cons kv l)
  obtain k v where kv: "kv = (k, v)" by (cases kv)
  from Cons.prems have d: "distinct (map fst l)" and nk: "k \<notin> fst ` set l"
    by (simp_all add: kv)
  have "List.map_filter (\<lambda>k'. map_option (Pair k') (map_of ((k, v) # l) k')) (map fst l)
      = List.map_filter (\<lambda>k'. map_option (Pair k') (map_of l k')) (map fst l)"
    unfolding List.map_filter_def using nk
    by (intro arg_cong2 [where f = map] filter_cong map_cong refl) auto
  with Cons.IH [OF d] show ?case
    by (simp add: kv List.map_filter_simps)
qed

lemma latest_is_representatives: "latest_progress_per_book xs = representatives xs"
proof -
  have "distinct (map fst (latest_progress_per_book xs))"
    by (simp add: latest_keys)
  from alist_rebuild [OF this] show ?thesis
    by (simp add: representatives_def latest_keys map_of_latest)
qed

subsection \<open>Most read books\<close>


lemma representatives_Nil [simp]: "representatives [] = []"
  by (simp add: representatives_def documents_of_def List.map_filter_simps)












subsection \<open>Reading time\<close>

lemma consecutive_sum_simps [simp]:
  "consecutive_sum [] = 0"
  "consecutive_sum [a] = 0"
  "consecutive_sum (a # b # rest) = counted_delta a b + consecutive_sum (b # rest)"
  by (simp_all add: consecutive_sum_def)

lemma consecutive_sum_short: "length xs < 2 \<Longrightarrow> consecutive_sum xs = 0"
  by (induction xs rule: induct_list012) simp_all

lemma pair_loop_consecutive: "pair_loop t xs = t + consecutive_sum xs"
proof (induction xs arbitrary: t rule: induct_list012)
  case 1
  show ?case by simp
next
  case (2 x)
  show ?case by simp
next
  case (3 a b rest)
  show ?case
    by (simp add: "3.IH"(2) Let_def counted_delta_def MAX_SESSION_GAP_SECONDS_def)
qed

lemma doc_step_consecutive:
  "doc_step t (d, ps) = t + consecutive_sum (sort_key timestamp ps)"
proof (cases "length ps < 2")
  case True
  then have "length (sort_key timestamp ps) < 2" by simp
  from consecutive_sum_short [OF this] True show ?thesis by (simp add: doc_step_def)
next
  case False
  then show ?thesis by (simp add: doc_step_def pair_loop_consecutive)
qed

lemma foldl_doc_step:
  "foldl doc_step t groups
     = t + sum_list (map (\<lambda>(d, ps). consecutive_sum (sort_key timestamp ps)) groups)"
proof (induction groups arbitrary: t)
  case Nil
  show ?case by simp
next
  case (Cons g groups)
  obtain d ps where g: "g = (d, ps)" by (cases g)
  show ?case by (simp add: g Cons.IH doc_step_consecutive)
qed

lemma update_keyed:
  assumes "distinct ds"
  shows "AList.update k v (map (\<lambda>d. (d, f d)) ds)
     = (if k \<in> set ds then map (\<lambda>d. (d, if d = k then v else f d)) ds
        else map (\<lambda>d. (d, f d)) ds @ [(k, v)])"
  using assms
proof (induction ds)
  case Nil
  show ?case by simp
next
  case (Cons d ds)
  show ?case
  proof (cases "d = k")
    case True
    with Cons.prems have "k \<notin> set ds" by simp
    then have "map (\<lambda>d. (d, if d = k then v else f d)) ds = map (\<lambda>d. (d, f d)) ds"
      by (intro map_cong refl) auto
    with True show ?thesis by simp
  next
    case False
    with Cons show ?thesis by simp
  qed
qed

lemma map_of_keyed:
  "map_of (map (\<lambda>d. (d, f d)) ds) k = (if k \<in> set ds then Some (f k) else None)"
  by (induction ds) auto

lemma groups_by_document:
  "foldl group_step [] xs
     = map (\<lambda>d. (d, filter (\<lambda>p. progress.document_id p = d) xs)) (documents_of xs)"
proof (induction xs rule: rev_induct)
  case Nil
  show ?case by (simp add: documents_of_def)
next
  case (snoc p xs)
  let ?k = "progress.document_id p"
  let ?f = "\<lambda>d. filter (\<lambda>q. progress.document_id q = d) xs"
  have g: "foldl group_step [] (xs @ [p])
      = group_step (map (\<lambda>d. (d, ?f d)) (documents_of xs)) p"
    by (simp add: snoc.IH)
  show ?case
  proof (cases "?k \<in> set (documents_of xs)")
    case True
    have "group_step (map (\<lambda>d. (d, ?f d)) (documents_of xs)) p
        = map (\<lambda>d. (d, if d = ?k then ?f ?k @ [p] else ?f d)) (documents_of xs)"
      using True by (simp add: group_step_def map_of_keyed update_keyed)
    also have "\<dots> = map (\<lambda>d. (d, filter (\<lambda>q. progress.document_id q = d) (xs @ [p])))
                        (documents_of xs)"
      by (intro map_cong refl) auto
    finally show ?thesis
      using True by (simp only: g documents_of_snoc if_True)
  next
    case False
    then have none: "?f ?k = []"
      unfolding filter_empty_conv set_documents_of by (metis imageI)
    have st: "group_step (map (\<lambda>d. (d, ?f d)) (documents_of xs)) p
        = map (\<lambda>d. (d, ?f d)) (documents_of xs) @ [(?k, [p])]"
      using False by (simp add: group_step_def map_of_keyed update_keyed)
    have mp: "map (\<lambda>d. (d, ?f d)) (documents_of xs)
        = map (\<lambda>d. (d, filter (\<lambda>q. progress.document_id q = d) (xs @ [p]))) (documents_of xs)"
      using False by (intro map_cong refl) auto
    have "foldl group_step [] (xs @ [p])
        = map (\<lambda>d. (d, ?f d)) (documents_of xs) @ [(?k, [p])]"
      by (simp only: g st)
    also have "\<dots> = map (\<lambda>d. (d, filter (\<lambda>q. progress.document_id q = d) (xs @ [p])))
                        (documents_of xs) @ [(?k, [p])]"
      by (simp only: mp)
    also have "\<dots> = map (\<lambda>d. (d, filter (\<lambda>q. progress.document_id q = d) (xs @ [p])))
                        (documents_of (xs @ [p]))"
      using False none by (simp add: documents_of_snoc)
    finally show ?thesis .
  qed
qed


lemma sort_filter_sorted:
  "sort_key timestamp (filter P (sort_key timestamp feed)) = sort_key timestamp (filter P feed)"
proof -
  have "sort_key timestamp (filter P (sort_key timestamp feed))
      = sort_key timestamp (sort_key timestamp (filter P feed))"
    by (simp only: filter_sort)
  also have "\<dots> = sort_key timestamp (filter P feed)"
    by (rule sort_key_id_if_sorted) simp
  finally show ?thesis .
qed

lemma reading_time_short:
  assumes "length feed < 2"
  shows "reading_time_spec feed = 0"
proof -
  have "consecutive_sum (sort_key timestamp (filter (\<lambda>p. progress.document_id p = d) feed)) = 0"
    for d
  proof (rule consecutive_sum_short)
    have "length (filter (\<lambda>p. progress.document_id p = d) feed) \<le> length feed"
      by (rule length_filter_le)
    from this assms have "length (filter (\<lambda>p. progress.document_id p = d) feed) < 2"
      by (rule le_less_trans)
    then show "length (sort_key timestamp (filter (\<lambda>p. progress.document_id p = d) feed)) < 2"
      by (simp only: length_sort)
  qed
  then show ?thesis by (simp add: reading_time_spec_def)
qed

lemma reading_time_refines:
  "get_total_reading_time_estimate entries usr
     = reading_time_spec (get_all_progress_for_user entries usr)"
proof (cases "length (get_all_progress_for_user entries usr) < 2")
  case True
  then have "get_total_reading_time_estimate entries usr = 0"
    by (simp add: get_total_reading_time_estimate_def)
  with reading_time_short [OF True] show ?thesis by simp
next
  case False
  let ?feed = "get_all_progress_for_user entries usr"
  let ?S = "sort_key timestamp ?feed"
  let ?h = "\<lambda>d. consecutive_sum (sort_key timestamp
                    (filter (\<lambda>p. progress.document_id p = d) ?feed))"
  from False have ne: "?feed \<noteq> []" by auto
  from False ne have "get_total_reading_time_estimate entries usr
      = foldl doc_step 0 (foldl group_step [] ?S)"
    by (simp add: get_total_reading_time_estimate_def Let_def)
  also have "\<dots> = sum_list (map (\<lambda>d. consecutive_sum (sort_key timestamp
                    (filter (\<lambda>p. progress.document_id p = d) ?S))) (documents_of ?S))"
    by (simp add: foldl_doc_step groups_by_document comp_def)
  also have "\<dots> = sum_list (map ?h (documents_of ?S))"
    by (simp only: sort_filter_sorted)
  also have "\<dots> = sum ?h (set (documents_of ?S))"
    by (rule sum_list_distinct_conv_sum_set) simp
  also have "set (documents_of ?S) = set (documents_of ?feed)" by simp
  also have "sum ?h (set (documents_of ?feed)) = sum_list (map ?h (documents_of ?feed))"
    by (rule sum_list_distinct_conv_sum_set [symmetric]) simp
  finally show ?thesis by (simp only: reading_time_spec_def)
qed


lemma reading_time_examples:
  "get_total_reading_time_estimate
     (save_all [sample 1 (Some 1) 1000 0.10, sample 1 (Some 2) 2000 0.30]) 7 = 1000"
  "get_total_reading_time_estimate
     (save_all [sample 1 (Some 1) 1000 0.10, sample 1 (Some 2) 2000 0.30,
                sample 1 (Some 3) 9300 0.35]) 7 = 1000"
  "get_total_reading_time_estimate (save_all [sample 1 (Some 1) 1000 0.10]) 7 = 0"
  "length (get_all_progress_for_user (save_all [sample 1 (Some 1) 1000 0.10]) 7) < 2"
  by (simp_all add: get_total_reading_time_estimate_def get_all_progress_for_user_def
      sort_key_reverse_def group_step_def doc_step_def MAX_SESSION_GAP_SECONDS_def Let_def
      save_all_def save_progress_def)

lemma reading_time_same_device:
  "get_total_reading_time_estimate
     (save_all [sample 1 (Some 1) 1000 0.10, sample 1 (Some 1) 2000 0.30]) 7 = 0"
  by (simp add: get_total_reading_time_estimate_def get_all_progress_for_user_def
      sort_key_reverse_def save_all_def save_progress_def)

subsection \<open>What one call does to a store with at most one entry of the key\<close>

text \<open>
  With no entry of the key the submission is appended; an entry of the key that is not
  later than the submission is replaced in place; an entry that is strictly later is kept
  and the submission is appended after the store's last entry.  Submitting the same entry
  twice leaves it once.
\<close>

lemma save_loop_no_key:
  assumes "\<forall>e \<in> set entries.
     \<not> (progress.document_id e = progress.document_id p \<and> device_id e = device_id p)"
  shows "save_loop p entries acc u = (acc @ entries, u)"
  using assms by (induction entries arbitrary: acc) auto

lemma save_progress_insert:
  assumes "\<forall>e \<in> set entries.
     \<not> (progress.document_id e = progress.document_id p \<and> device_id e = device_id p)"
  shows "snd (save_progress p entries) = entries @ [p]"
  by (simp add: save_progress_def save_loop_no_key [OF assms])

lemma save_loop_one_key:
  assumes xs: "\<forall>x \<in> set xs.
       \<not> (progress.document_id x = progress.document_id p \<and> device_id x = device_id p)"
    and ys: "\<forall>y \<in> set ys.
       \<not> (progress.document_id y = progress.document_id p \<and> device_id y = device_id p)"
    and e: "progress.document_id e = progress.document_id p" "device_id e = device_id p"
  shows "save_loop p (xs @ e # ys) [] False
     = (if timestamp e \<le> timestamp p then (xs @ p # ys, True) else (xs @ e # ys, False))"
proof -
  have pre: "save_loop p (xs @ rest) acc u = save_loop p rest (acc @ xs) u" for rest acc u
    using xs by (induction xs arbitrary: acc) auto
  show ?thesis
    using e by (simp add: pre save_loop_no_key [OF ys])
qed

lemma save_progress_replace:
  assumes "\<forall>x \<in> set xs.
       \<not> (progress.document_id x = progress.document_id p \<and> device_id x = device_id p)"
    and "\<forall>y \<in> set ys.
       \<not> (progress.document_id y = progress.document_id p \<and> device_id y = device_id p)"
    and "progress.document_id e = progress.document_id p" "device_id e = device_id p"
    and "timestamp e \<le> timestamp p"
  shows "snd (save_progress p (xs @ e # ys)) = xs @ p # ys"
  using assms(5) by (simp add: save_progress_def save_loop_one_key [OF assms(1-4)])

lemma save_progress_stale:
  assumes "\<forall>x \<in> set xs.
       \<not> (progress.document_id x = progress.document_id p \<and> device_id x = device_id p)"
    and "\<forall>y \<in> set ys.
       \<not> (progress.document_id y = progress.document_id p \<and> device_id y = device_id p)"
    and "progress.document_id e = progress.document_id p" "device_id e = device_id p"
    and "timestamp p < timestamp e"
  shows "snd (save_progress p (xs @ e # ys)) = xs @ e # ys @ [p]"
  using assms(5) by (simp add: save_progress_def save_loop_one_key [OF assms(1-4)])

lemma save_progress_twice:
  assumes "\<forall>e \<in> set entries.
     \<not> (progress.document_id e = progress.document_id p \<and> device_id e = device_id p)"
  shows "snd (save_progress p (snd (save_progress p entries))) = entries @ [p]"
  using save_progress_replace [of entries p "[]" p] assms
  by (simp add: save_progress_insert [OF assms])

subsection \<open>Activity buckets\<close>

lemma strftime_day:
  "strftime t ''%Y-%m-%d''
     = directive t CHR ''Y'' @ CHR ''-'' # directive t CHR ''m'' @ CHR ''-'' # directive t CHR ''d''"
  by simp

lemma length_directive:
  "length (directive t CHR ''m'') = 2" "length (directive t CHR ''d'') = 2"
  by (simp_all add: directive_def split: prod.splits)

lemma activity_step_fallback:
  "period \<noteq> ''month'' \<Longrightarrow> period \<noteq> ''year'' \<Longrightarrow> activity_step period = activity_step ''day''"
  by (intro ext) (simp add: activity_step_def split: prod.splits)

lemma activity_step_day:
  "activity_step ''day'' activity (d, e)
     = (if percentage e \<ge> 0.95
        then AList.update (day_key e)
               ((case map_of activity (day_key e) of None \<Rightarrow> 0 | Some v \<Rightarrow> v) + 1) activity
        else activity)"
  by (simp add: activity_step_def day_key_def Let_def del: strftime.simps)

lemma activity_distinct:
  "distinct (map fst acc) \<Longrightarrow> distinct (map fst (foldl (activity_step ''day'') acc items))"
proof (induction items arbitrary: acc)
  case Nil then show ?case by simp
next
  case (Cons it items)
  obtain d e where it: "it = (d, e)" by (cases it)
  have "distinct (map fst (activity_step ''day'' acc it))"
    using Cons.prems by (simp add: it activity_step_day distinct_update del: strftime.simps)
  from Cons.IH [OF this] show ?case by simp
qed

lemma activity_count:
  "map_of (foldl (activity_step ''day'') acc items) k
     = (if filter (\<lambda>(d, e). percentage e \<ge> 0.95 \<and> day_key e = k) items = []
        then map_of acc k
        else Some ((case map_of acc k of None \<Rightarrow> 0 | Some v \<Rightarrow> v)
                   + real (length (filter (\<lambda>(d, e). percentage e \<ge> 0.95 \<and> day_key e = k) items))))"
proof (induction items arbitrary: acc)
  case Nil then show ?case by simp
next
  case (Cons it items)
  obtain d e where it: "it = (d, e)" by (cases it)
  show ?case
    unfolding foldl_Cons Cons.IH it activity_step_day
    by (simp add: update_conv' split: option.splits)
qed


lemma sorted_fst:
  fixes xs :: "('a::linorder \<times> 'b::linorder) list"
  shows "sorted xs \<Longrightarrow> sorted (map fst xs)"
  by (rule sorted_map_mono) (auto simp: mono_on_def less_eq_prod_def)

lemma activity_sorted_keys:
  "sorted (map fst (get_reading_activity_over_time entries usr period))"
  by (simp add: get_reading_activity_over_time_def Let_def sorted_fst)

lemma distinct_fst_sort:
  fixes xs :: "('a::linorder \<times> 'b::linorder) list"
  assumes "distinct (map fst xs)"
  shows "distinct (map fst (sort xs))"
proof -
  have "mset (map fst (sort xs)) = mset (map fst xs)" by simp
  from mset_eq_imp_distinct_iff [OF this] assms show ?thesis by simp
qed

lemma activity_day_cases:
  "get_reading_activity_over_time entries usr ''day'' = []
   \<or> get_reading_activity_over_time entries usr ''day''
       = sort (foldl (activity_step ''day'') []
           (latest_progress_per_book (get_all_progress_for_user entries usr)))"
  by (simp add: get_reading_activity_over_time_def Let_def)

lemma activity_distinct_keys:
  "distinct (map fst (get_reading_activity_over_time entries usr ''day''))"
proof -
  have "distinct (map fst (sort (foldl (activity_step ''day'') []
           (latest_progress_per_book (get_all_progress_for_user entries usr)))))"
    by (intro distinct_fst_sort activity_distinct) simp
  with activity_day_cases [of entries usr] show ?thesis by auto
qed


lemma activity_fallback:
  assumes "period \<noteq> ''month''" "period \<noteq> ''year''"
  shows "get_reading_activity_over_time entries usr period
     = get_reading_activity_over_time entries usr ''day''"
  unfolding get_reading_activity_over_time_def activity_step_fallback [OF assms] ..


lemma map_of_sort:
  fixes xs :: "('a::linorder \<times> 'b::linorder) list"
  assumes "distinct (map fst xs)"
  shows "map_of (sort xs) = map_of xs"
proof -
  have "distinct (map fst (sort xs))" by (rule distinct_fst_sort [OF assms])
  from map_of_inject_set [OF this assms] show ?thesis by simp
qed

lemma activity_map_of:
  "map_of (get_reading_activity_over_time entries usr ''day'') k
     = (if finished_on (get_all_progress_for_user entries usr) k = [] then None
        else Some (real (length (finished_on (get_all_progress_for_user entries usr) k))))"
proof (cases "get_all_progress_for_user entries usr = []")
  case True
  then show ?thesis
    by (simp add: get_reading_activity_over_time_def finished_on_def)
next
  case False
  let ?feed = "get_all_progress_for_user entries usr"
  let ?A = "foldl (activity_step ''day'') [] (latest_progress_per_book ?feed)"
  have dA: "distinct (map fst ?A)" by (rule activity_distinct) simp
  from False have "get_reading_activity_over_time entries usr ''day'' = sort ?A"
    by (simp add: get_reading_activity_over_time_def Let_def)
  then have "map_of (get_reading_activity_over_time entries usr ''day'') k = map_of ?A k"
    by (simp only: map_of_sort [OF dA])
  also have "\<dots> = (if finished_on ?feed k = [] then None
        else Some (real (length (finished_on ?feed k))))"
    using activity_count [of "[]" "latest_progress_per_book ?feed" k]
    by (simp add: finished_on_def latest_is_representatives)
  finally show ?thesis .
qed

lemma activity_day_entry:
  assumes kc: "(k, c) \<in> set (get_reading_activity_over_time entries usr ''day'')"
  shows "(\<exists>(d, e) \<in> set (representatives (get_all_progress_for_user entries usr)).
           percentage e \<ge> 0.95
           \<and> k = directive (timestamp e) CHR ''Y'' @ CHR ''-'' # directive (timestamp e) CHR ''m''
                   @ CHR ''-'' # directive (timestamp e) CHR ''d''
           \<and> length (directive (timestamp e) CHR ''m'') = 2
           \<and> length (directive (timestamp e) CHR ''d'') = 2)
     \<and> c = real (length (finished_on (get_all_progress_for_user entries usr) k))
     \<and> 1 \<le> c"
proof -
  let ?feed = "get_all_progress_for_user entries usr"
  let ?F = "finished_on ?feed k"
  from kc activity_distinct_keys [of entries usr]
  have m: "map_of (get_reading_activity_over_time entries usr ''day'') k = Some c" by simp
  have ne: "?F \<noteq> []"
  proof
    assume "?F = []"
    then have "map_of (get_reading_activity_over_time entries usr ''day'') k = None"
      by (simp add: activity_map_of)
    with m show False by simp
  qed
  from ne have "map_of (get_reading_activity_over_time entries usr ''day'') k
      = Some (real (length ?F))"
    by (simp add: activity_map_of)
  with m have c: "c = real (length ?F)" by simp
  from ne have "1 \<le> length ?F" by (cases ?F) simp_all
  then have "1 \<le> real (length ?F)" by simp
  with c have c1: "1 \<le> c" by (simp only:)
  from ne obtain x rest where "?F = x # rest" by (cases ?F) auto
  then have x: "x \<in> set ?F" by simp
  obtain d e where xe: "x = (d, e)" by (cases x)
  from x xe have de: "(d, e) \<in> set (representatives ?feed)" "percentage e \<ge> 0.95" "day_key e = k"
    by (simp_all add: finished_on_def)
  from de(3) have k: "k = directive (timestamp e) CHR ''Y'' @ CHR ''-'' # directive (timestamp e) CHR ''m''
                   @ CHR ''-'' # directive (timestamp e) CHR ''d''"
    by (simp only: day_key_def strftime_day)
  have "case (d, e) of (d, e) \<Rightarrow>
           percentage e \<ge> 0.95
           \<and> k = directive (timestamp e) CHR ''Y'' @ CHR ''-'' # directive (timestamp e) CHR ''m''
                   @ CHR ''-'' # directive (timestamp e) CHR ''d''
           \<and> length (directive (timestamp e) CHR ''m'') = 2
           \<and> length (directive (timestamp e) CHR ''d'') = 2"
    unfolding prod.case using de(2) k length_directive by (intro conjI)
  with de(1) have ex: "\<exists>(d, e) \<in> set (representatives ?feed).
           percentage e \<ge> 0.95
           \<and> k = directive (timestamp e) CHR ''Y'' @ CHR ''-'' # directive (timestamp e) CHR ''m''
                   @ CHR ''-'' # directive (timestamp e) CHR ''d''
           \<and> length (directive (timestamp e) CHR ''m'') = 2
           \<and> length (directive (timestamp e) CHR ''d'') = 2"
    by (rule rev_bexI)
  from ex c c1 show ?thesis by (intro conjI)
qed

lemma strftime_examples:
  "strftime 1672574400 ''%Y-%m-%d'' = ''2023-01-01''"
  "strftime 1672574500 ''%Y-%m-%d'' = ''2023-01-01''"
  "strftime (- 40000000000) ''%Y-%m-%d'' = ''702-06-15''"
  by code_simp+

lemma activity_example:
  "get_reading_activity_over_time
     [sample 1 (Some 1) 1672574400 0.96, sample 2 (Some 2) 1672574500 0.99,
      sample 3 (Some 3) 1672574600 0.5] 7 ''day''
   = [(''2023-01-01'', 2)]"
  by (simp add: get_reading_activity_over_time_def get_all_progress_for_user_def
      sort_key_reverse_def latest_progress_per_book_def latest_step_def
      activity_step_def Let_def strftime_examples del: strftime.simps)

subsection \<open>Construction by field name\<close>


lemma Progress_init_by_alias:
  "Progress_init
     (map_of
        [(''document'', PyUUID doc), (''user_id'', PyUUID usr), (''percentage'', PyFloat pct),
         (''progress'', PyStr detail), (''device'', PyStr dev_name),
         (''device_id'', PyNone), (''timestamp'', PyDatetime t)])
   = Inr \<lparr> progress.document_id = doc, user_id = Some usr, percentage = pct,
           progress_detail = detail, device_name = dev_name, device_id = None,
           timestamp = t \<rparr>"
  by (simp add: Progress_init_def)


section \<open>The upsert\<close>

text \<open>
  C1. A submission whose timestamp is strictly less than the stored one for the same key
  should leave the store unchanged.  The loop keeps the stored entry but never sets
  \<open>updated\<close>, so the stale submission is appended after it.
\<close>

theorem save_progress_stale_appended:
  "snd (save_progress (sample 1 (Some 1) 1000 0.2) [sample 1 (Some 1) 5000 0.5])
     = [sample 1 (Some 1) 5000 0.5, sample 1 (Some 1) 1000 0.2]"
  by (simp add: save_progress_def)

text \<open>
  C4. After any sequence of \<open>save_progress\<close> calls from the empty store there should be
  at most one entry per (document, device) key.  Submitting a later and then an earlier
  timestamp for one key leaves both entries in the store.
\<close>

theorem save_all_two_entries_one_key:
  "save_all [sample 1 (Some 1) 5000 0.5, sample 1 (Some 1) 1000 0.2]
     = [sample 1 (Some 1) 5000 0.5, sample 1 (Some 1) 1000 0.2]
   \<and> length (filter (\<lambda>e. progress.document_id e = 1 \<and> device_id e = Some 1)
        (save_all [sample 1 (Some 1) 5000 0.5, sample 1 (Some 1) 1000 0.2])) = 2"
  by (simp add: save_all_def save_progress_def)


section \<open>The value returned by \<open>save_progress\<close>\<close>

text \<open>
  A rejected submission does not make \<open>save_progress\<close> return the stored entry: the call
  returns the stale submission while the per-device lookup still answers with the stored
  entry.
\<close>

theorem save_progress_returns_stale_submission:
  "fst (save_progress (sample 1 (Some 1) 1000 0.2) [sample 1 (Some 1) 5000 0.5])
     \<noteq> sample 1 (Some 1) 5000 0.5
   \<and> get_progress_for_document_and_device
        (snd (save_progress (sample 1 (Some 1) 1000 0.2) [sample 1 (Some 1) 5000 0.5])) 1 1
      = Inr (Some (sample 1 (Some 1) 5000 0.5))"
  by (simp add: save_progress_def get_progress_for_document_and_device_def
      sort_key_reverse_def index0_def)


text \<open>
  C3 (amended). \<open>save_progress p\<close> always returns \<open>p\<close> itself.  When an entry of the same
  key with a strictly later timestamp is stored, the per-device lookup after the call
  yields a previously stored entry later than \<open>p\<close>: the canonical entry is not the
  returned value.
\<close>

theorem save_progress_returns_submitted:
  "fst (save_progress p entries) = p
   \<and> (\<forall>e \<in> set entries.
         progress.document_id e = progress.document_id p \<and> device_id e = Some dev
         \<and> device_id p = Some dev \<and> timestamp p < timestamp e
         \<longrightarrow> (\<exists>c. get_progress_for_document_and_device (snd (save_progress p entries))
                      (progress.document_id p) dev = Inr (Some c)
                  \<and> timestamp p < timestamp c \<and> c \<in> set entries))"
proof -
  have ret: "fst (save_progress p entries) = p"
    by (simp add: save_progress_def split: prod.splits)
  have stale: "\<exists>c. get_progress_for_document_and_device (snd (save_progress p entries))
                      (progress.document_id p) dev = Inr (Some c)
                  \<and> timestamp p < timestamp c \<and> c \<in> set entries"
    if e: "e \<in> set entries" and k: "progress.document_id e = progress.document_id p"
      "device_id e = Some dev" "device_id p = Some dev" and lt: "timestamp p < timestamp e"
    for e
  proof -
    let ?s = "snd (save_progress p entries)"
    have kept: "e \<in> set ?s" using e lt by (intro save_progress_keeps) auto
    obtain r where r: "get_progress_for_document_and_device ?s (progress.document_id p) dev = Inr r"
      using get_device_progress_total by blast
    from kept k have "r \<noteq> None"
      using r get_device_progress_None [of ?s "progress.document_id p" dev] by auto
    then obtain c where c: "r = Some c" by auto
    from get_device_progress_Some [OF r [unfolded c]] kept k
    have cs: "c \<in> set ?s" and "timestamp e \<le> timestamp c" by auto
    with lt have tc: "timestamp p < timestamp c" by simp
    then have "c \<noteq> p" by auto
    with cs save_progress_subset [of p entries] have "c \<in> set entries" by auto
    with r c tc show ?thesis by blast
  qed
  from ret stale show ?thesis by blast
qed

theorem save_progress_returns_submitted_witness:
  "sample 1 (Some 1) 5000 0.5 \<in> set [sample 1 (Some 1) 5000 0.5]
   \<and> timestamp (sample 1 (Some 1) 1000 0.2) < timestamp (sample 1 (Some 1) 5000 0.5)
   \<and> fst (save_progress (sample 1 (Some 1) 1000 0.2) [sample 1 (Some 1) 5000 0.5])
       = sample 1 (Some 1) 1000 0.2
   \<and> (\<exists>c. get_progress_for_document_and_device
              (snd (save_progress (sample 1 (Some 1) 1000 0.2) [sample 1 (Some 1) 5000 0.5]))
              1 1 = Inr (Some c)
          \<and> 1000 < timestamp c)"
  using save_progress_returns_submitted [of "sample 1 (Some 1) 1000 0.2" "[sample 1 (Some 1) 5000 0.5]" 1]
  by simp


section \<open>Lookups across devices and per device\<close>

text \<open>
  C5. \<open>get_latest_progress\<close> never raises, answers \<open>None\<close> exactly when no stored entry
  matches the document and user, and otherwise an entry of maximal timestamp among all
  matching entries, whatever their device.  \<open>get_progress_for_document_and_device\<close> does
  the same for the (document, device) key.  Saving an entry of another device leaves the
  per-device answer unchanged, and when the saved entry of the document and user is
  strictly newer than every stored one it becomes the answer of \<open>get_latest_progress\<close>.
\<close>

theorem lookups_across_devices:
  "(\<exists>r. get_latest_progress entries doc usr = Inr r)
   \<and> (get_latest_progress entries doc usr = Inr None
        \<longleftrightarrow> (\<forall>e \<in> set entries. \<not> (progress.document_id e = doc \<and> user_id e = Some usr)))
   \<and> (\<forall>e. get_latest_progress entries doc usr = Inr (Some e)
        \<longrightarrow> e \<in> set entries \<and> progress.document_id e = doc \<and> user_id e = Some usr
            \<and> (\<forall>q \<in> set entries. progress.document_id q = doc \<and> user_id q = Some usr
                  \<longrightarrow> timestamp q \<le> timestamp e))
   \<and> (\<exists>r. get_progress_for_document_and_device entries doc dev = Inr r)
   \<and> (get_progress_for_document_and_device entries doc dev = Inr None
        \<longleftrightarrow> (\<forall>e \<in> set entries. \<not> (progress.document_id e = doc \<and> device_id e = Some dev)))
   \<and> (\<forall>e. get_progress_for_document_and_device entries doc dev = Inr (Some e)
        \<longrightarrow> e \<in> set entries \<and> progress.document_id e = doc \<and> device_id e = Some dev
            \<and> (\<forall>q \<in> set entries. progress.document_id q = doc \<and> device_id q = Some dev
                  \<longrightarrow> timestamp q \<le> timestamp e))
   \<and> (device_id p \<noteq> Some dev
        \<longrightarrow> get_progress_for_document_and_device (snd (save_progress p entries)) doc dev
            = get_progress_for_document_and_device entries doc dev)
   \<and> (progress.document_id p = doc \<and> user_id p = Some usr
        \<and> (\<forall>q \<in> set entries. progress.document_id q = doc \<and> user_id q = Some usr
              \<longrightarrow> timestamp q < timestamp p)
        \<longrightarrow> get_latest_progress (snd (save_progress p entries)) doc usr = Inr (Some p))"
proof -
  have other: "get_progress_for_document_and_device (snd (save_progress p entries)) doc dev
      = get_progress_for_document_and_device entries doc dev" if "device_id p \<noteq> Some dev"
  proof -
    have "filter (\<lambda>e. progress.document_id e = doc \<and> device_id e = Some dev)
            (snd (save_progress p entries))
          = filter (\<lambda>e. progress.document_id e = doc \<and> device_id e = Some dev) entries"
      using that by (intro save_progress_filter_other) auto
    then show ?thesis by (simp add: get_progress_for_document_and_device_def)
  qed
  have newer: "get_latest_progress (snd (save_progress p entries)) doc usr = Inr (Some p)"
    if pd: "progress.document_id p = doc" and pu: "user_id p = Some usr"
      and lt: "\<forall>q \<in> set entries. progress.document_id q = doc \<and> user_id q = Some usr
                \<longrightarrow> timestamp q < timestamp p"
  proof -
    let ?s = "snd (save_progress p entries)"
    obtain r where r: "get_latest_progress ?s doc usr = Inr r"
      using get_latest_progress_total by blast
    have mem: "p \<in> set ?s" by (rule save_progress_member)
    with pd pu have "r \<noteq> None"
      using r get_latest_progress_None [of ?s doc usr] by auto
    then obtain e where e: "r = Some e" by auto
    from get_latest_progress_Some [OF r [unfolded e]]
    have es: "e \<in> set ?s" and ed: "progress.document_id e = doc"
      and eu: "user_id e = Some usr"
      and mx: "\<forall>q \<in> set ?s. progress.document_id q = doc \<and> user_id q = Some usr
                \<longrightarrow> timestamp q \<le> timestamp e"
      by auto
    from mx mem pd pu have le: "timestamp p \<le> timestamp e" by auto
    have "e = p"
    proof (rule ccontr)
      assume "e \<noteq> p"
      with es save_progress_subset [of p entries] have "e \<in> set entries" by auto
      with lt ed eu have "timestamp e < timestamp p" by auto
      with le show False by simp
    qed
    with r e show ?thesis by simp
  qed
  have l1: "\<exists>r. get_latest_progress entries doc usr = Inr r"
    by (rule get_latest_progress_total)
  have l2: "get_latest_progress entries doc usr = Inr None
        \<longleftrightarrow> (\<forall>e \<in> set entries. \<not> (progress.document_id e = doc \<and> user_id e = Some usr))"
    by (rule get_latest_progress_None)
  have l3: "\<forall>e. get_latest_progress entries doc usr = Inr (Some e)
        \<longrightarrow> e \<in> set entries \<and> progress.document_id e = doc \<and> user_id e = Some usr
            \<and> (\<forall>q \<in> set entries. progress.document_id q = doc \<and> user_id q = Some usr
                  \<longrightarrow> timestamp q \<le> timestamp e)"
    using get_latest_progress_Some [of entries doc usr] by blast
  have d1: "\<exists>r. get_progress_for_document_and_device entries doc dev = Inr r"
    by (rule get_device_progress_total)
  have d2: "get_progress_for_document_and_device entries doc dev = Inr None
        \<longleftrightarrow> (\<forall>e \<in> set entries. \<not> (progress.document_id e = doc \<and> device_id e = Some dev))"
    by (rule get_device_progress_None)
  have d3: "\<forall>e. get_progress_for_document_and_device entries doc dev = Inr (Some e)
        \<longrightarrow> e \<in> set entries \<and> progress.document_id e = doc \<and> device_id e = Some dev
            \<and> (\<forall>q \<in> set entries. progress.document_id q = doc \<and> device_id q = Some dev
                  \<longrightarrow> timestamp q \<le> timestamp e)"
    using get_device_progress_Some [of entries doc dev] by blast
  from l1 l2 l3 d1 d2 d3 other newer show ?thesis
    by (intro conjI impI) (assumption | elim conjE)+
qed

theorem lookups_across_devices_witness:
  "get_latest_progress [sample 1 (Some 1) 1000 0.1] 1 7 = Inr (Some (sample 1 (Some 1) 1000 0.1))
   \<and> get_latest_progress
        (snd (save_progress (sample 1 (Some 2) 5000 0.5) [sample 1 (Some 1) 1000 0.1])) 1 7
      = Inr (Some (sample 1 (Some 2) 5000 0.5))
   \<and> get_progress_for_document_and_device
        (snd (save_progress (sample 1 (Some 2) 5000 0.5) [sample 1 (Some 1) 1000 0.1])) 1 1
      = Inr (Some (sample 1 (Some 1) 1000 0.1))"
proof -
  have a: "get_latest_progress [sample 1 (Some 1) 1000 0.1] 1 7
      = Inr (Some (sample 1 (Some 1) 1000 0.1))"
    by (simp add: get_latest_progress_def sort_key_reverse_def index0_def)
  have b: "get_progress_for_document_and_device [sample 1 (Some 1) 1000 0.1] 1 1
      = Inr (Some (sample 1 (Some 1) 1000 0.1))"
    by (simp add: get_progress_for_document_and_device_def sort_key_reverse_def index0_def)
  show ?thesis
    using lookups_across_devices [of "[sample 1 (Some 1) 1000 0.1]" 1 7 1 "sample 1 (Some 2) 5000 0.5"] a b
    by simp
qed


section \<open>The feed of a user\<close>

text \<open>
  C8. \<open>get_all_progress_for_user\<close> returns exactly the stored entries of the user (as a
  multiset), in descending order of the pair (document, timestamp): timestamps descend
  within each document, and the entries of one document are contiguous.
\<close>

theorem get_all_progress_for_user_ordered:
  "mset (get_all_progress_for_user entries usr)
     = mset (filter (\<lambda>p. user_id p = Some usr) entries)
   \<and> sorted (rev (map (\<lambda>p. (progress.document_id p, timestamp p))
                  (get_all_progress_for_user entries usr)))
   \<and> (\<forall>i j. i < j \<and> j < length (get_all_progress_for_user entries usr)
         \<and> progress.document_id (get_all_progress_for_user entries usr ! i)
             = progress.document_id (get_all_progress_for_user entries usr ! j)
         \<longrightarrow> timestamp (get_all_progress_for_user entries usr ! j)
               \<le> timestamp (get_all_progress_for_user entries usr ! i))
   \<and> (\<forall>i j k. i < j \<and> j < k \<and> k < length (get_all_progress_for_user entries usr)
         \<and> progress.document_id (get_all_progress_for_user entries usr ! i)
             = progress.document_id (get_all_progress_for_user entries usr ! k)
         \<longrightarrow> progress.document_id (get_all_progress_for_user entries usr ! j)
               = progress.document_id (get_all_progress_for_user entries usr ! i))"
proof -
  let ?r = "get_all_progress_for_user entries usr"
  let ?key = "\<lambda>p. (progress.document_id p, timestamp p)"
  have m: "mset ?r = mset (filter (\<lambda>p. user_id p = Some usr) entries)"
    by (simp add: get_all_progress_for_user_def)
  have s: "sorted (rev (map ?key ?r))"
    unfolding get_all_progress_for_user_def by (rule sort_key_reverse_descending)
  have le: "?key (?r ! j) \<le> ?key (?r ! i)" if "i < j" "j < length ?r" for i j
    using descending_nth [OF s, of i j] that by simp
  have t: "timestamp (?r ! j) \<le> timestamp (?r ! i)"
    if "i < j" "j < length ?r" "progress.document_id (?r ! i) = progress.document_id (?r ! j)"
    for i j
    using le [OF that(1,2)] that(3) by simp
  have g: "progress.document_id (?r ! j) = progress.document_id (?r ! i)"
    if "i < j" "j < k" "k < length ?r"
      "progress.document_id (?r ! i) = progress.document_id (?r ! k)"
    for i j k
  proof -
    have "?key (?r ! j) \<le> ?key (?r ! i)" using le [of i j] that by simp
    moreover have "?key (?r ! k) \<le> ?key (?r ! j)" using le [of j k] that by simp
    ultimately show ?thesis using that(4) by (auto simp: less_eq_prod_def)
  qed
  from m s t g show ?thesis by blast
qed

theorem get_all_progress_for_user_ordered_witness:
  "(1::nat) < 2
   \<and> 2 < length (get_all_progress_for_user
         [sample 1 (Some 1) 1000 0.1, sample 2 (Some 2) 2000 0.3, sample 1 (Some 3) 9300 0.35,
          (sample 1 (Some 4) 500 0.9)\<lparr>user_id := Some 8\<rparr>] 7)
   \<and> timestamp (get_all_progress_for_user
         [sample 1 (Some 1) 1000 0.1, sample 2 (Some 2) 2000 0.3, sample 1 (Some 3) 9300 0.35,
          (sample 1 (Some 4) 500 0.9)\<lparr>user_id := Some 8\<rparr>] 7 ! 2)
       \<le> timestamp (get_all_progress_for_user
         [sample 1 (Some 1) 1000 0.1, sample 2 (Some 2) 2000 0.3, sample 1 (Some 3) 9300 0.35,
          (sample 1 (Some 4) 500 0.9)\<lparr>user_id := Some 8\<rparr>] 7 ! 1)
   \<and> get_all_progress_for_user
         [sample 1 (Some 1) 1000 0.1, sample 2 (Some 2) 2000 0.3, sample 1 (Some 3) 9300 0.35,
          (sample 1 (Some 4) 500 0.9)\<lparr>user_id := Some 8\<rparr>] 7
       = [sample 2 (Some 2) 2000 0.3, sample 1 (Some 3) 9300 0.35, sample 1 (Some 1) 1000 0.1]"
proof -
  let ?s = "[sample 1 (Some 1) 1000 0.1, sample 2 (Some 2) 2000 0.3, sample 1 (Some 3) 9300 0.35,
          (sample 1 (Some 4) 500 0.9)\<lparr>user_id := Some 8\<rparr>]"
  have r: "get_all_progress_for_user ?s 7
      = [sample 2 (Some 2) 2000 0.3, sample 1 (Some 3) 9300 0.35, sample 1 (Some 1) 1000 0.1]"
    by (simp add: get_all_progress_for_user_def sort_key_reverse_def)
  have "timestamp (get_all_progress_for_user ?s 7 ! 2)
       \<le> timestamp (get_all_progress_for_user ?s 7 ! 1)"
    using get_all_progress_for_user_ordered [of ?s 7] r by (elim conjE allE [of _ 1] allE [of _ 2]) simp
  with r show ?thesis by simp
qed


section \<open>Validation in \<open>submit_progress\<close>\<close>



section \<open>Reads for a user without entries\<close>

text \<open>
  C9. For a user with no stored entry, \<open>get_total_books_started\<close> is 0,
  \<open>get_average_read_percentage\<close> is \<open>None\<close>, \<open>get_total_reading_time_estimate\<close> is the
  zero duration and \<open>get_all_progress_for_user\<close> is empty; the two single-entry lookups
  answer \<open>None\<close> for every key without an entry; and none of the lookups or the average
  raises, whatever the store.
\<close>

theorem empty_user_reads:
  "((\<forall>e \<in> set entries. user_id e \<noteq> Some usr)
      \<longrightarrow> get_total_books_started entries usr = 0
          \<and> get_average_read_percentage entries usr = Inr None
          \<and> get_total_reading_time_estimate entries usr = 0
          \<and> get_all_progress_for_user entries usr = []
          \<and> get_latest_progress entries doc usr = Inr None)
   \<and> ((\<forall>e \<in> set entries. \<not> (progress.document_id e = doc \<and> user_id e = Some usr))
      \<longrightarrow> get_latest_progress entries doc usr = Inr None)
   \<and> ((\<forall>e \<in> set entries. \<not> (progress.document_id e = doc \<and> device_id e = Some dev))
      \<longrightarrow> get_progress_for_document_and_device entries doc dev = Inr None)
   \<and> (\<exists>r. get_latest_progress entries doc usr = Inr r)
   \<and> (\<exists>r. get_progress_for_document_and_device entries doc dev = Inr r)
   \<and> (\<exists>r. get_average_read_percentage entries usr = Inr r)"
proof -
  have empty: "(\<forall>e \<in> set entries. user_id e \<noteq> Some usr)
      \<longrightarrow> get_total_books_started entries usr = 0
          \<and> get_average_read_percentage entries usr = Inr None
          \<and> get_total_reading_time_estimate entries usr = 0
          \<and> get_all_progress_for_user entries usr = []
          \<and> get_latest_progress entries doc usr = Inr None"
  proof
    assume h: "\<forall>e \<in> set entries. user_id e \<noteq> Some usr"
    from h have n: "get_all_progress_for_user entries usr = []"
      by (simp add: get_all_progress_for_user_Nil_iff)
    from h have "get_latest_progress entries doc usr = Inr None"
      by (simp add: get_latest_progress_None)
    with n show "get_total_books_started entries usr = 0
          \<and> get_average_read_percentage entries usr = Inr None
          \<and> get_total_reading_time_estimate entries usr = 0
          \<and> get_all_progress_for_user entries usr = []
          \<and> get_latest_progress entries doc usr = Inr None"
      by (simp add: get_total_books_started_def get_average_read_percentage_def
          get_total_reading_time_estimate_def)
  qed
  have l: "(\<forall>e \<in> set entries. \<not> (progress.document_id e = doc \<and> user_id e = Some usr))
      \<longrightarrow> get_latest_progress entries doc usr = Inr None"
    by (simp add: get_latest_progress_None)
  have d: "(\<forall>e \<in> set entries. \<not> (progress.document_id e = doc \<and> device_id e = Some dev))
      \<longrightarrow> get_progress_for_document_and_device entries doc dev = Inr None"
    by (simp add: get_device_progress_None)
  show ?thesis
    by (intro conjI empty l d get_latest_progress_total get_device_progress_total
        get_average_read_percentage_total)
qed

theorem empty_user_reads_witness:
  "get_total_books_started [sample 1 (Some 1) 1000 0.1] 8 = 0
   \<and> get_average_read_percentage [sample 1 (Some 1) 1000 0.1] 8 = Inr None
   \<and> get_total_reading_time_estimate [sample 1 (Some 1) 1000 0.1] 8 = 0
   \<and> get_all_progress_for_user [sample 1 (Some 1) 1000 0.1] 8 = []
   \<and> get_latest_progress [sample 1 (Some 1) 1000 0.1] 1 8 = Inr None
   \<and> get_latest_progress [sample 1 (Some 1) 1000 0.1] 2 7 = Inr None
   \<and> get_progress_for_document_and_device [sample 1 (Some 1) 1000 0.1] 1 2 = Inr None"
  using empty_user_reads [of "[sample 1 (Some 1) 1000 0.1]" 8 1 2]
    empty_user_reads [of "[sample 1 (Some 1) 1000 0.1]" 7 2 2]
  by simp

section \<open>Periods other than month and year\<close>

text \<open>
  C10. For every period other than \<open>month\<close> and \<open>year\<close> the call is not rejected and
  equals the call with period \<open>day\<close>.  The result is sorted by key without repeated
  keys; a key is present exactly when some document's representative has percentage at
  least 0.95 and that day-level key, and its count is the number of such representatives;
  every key is the year, the two-digit month and the two-digit day of such a
  representative's timestamp, joined by hyphens.
\<close>

theorem activity_period_fallback:
  "period \<noteq> ''month'' \<and> period \<noteq> ''year''
   \<longrightarrow> get_reading_activity_over_time entries usr period
         = get_reading_activity_over_time entries usr ''day''
       \<and> sorted (map fst (get_reading_activity_over_time entries usr period))
       \<and> distinct (map fst (get_reading_activity_over_time entries usr period))
       \<and> (\<forall>k. map_of (get_reading_activity_over_time entries usr period) k
              = (if finished_on (get_all_progress_for_user entries usr) k = [] then None
                 else Some (real (length
                        (finished_on (get_all_progress_for_user entries usr) k)))))
       \<and> (\<forall>(k, c) \<in> set (get_reading_activity_over_time entries usr period).
             (\<exists>(d, e) \<in> set (representatives (get_all_progress_for_user entries usr)).
                percentage e \<ge> 0.95
                \<and> k = directive (timestamp e) CHR ''Y'' @ CHR ''-''
                        # directive (timestamp e) CHR ''m'' @ CHR ''-''
                        # directive (timestamp e) CHR ''d''
                \<and> length (directive (timestamp e) CHR ''m'') = 2
                \<and> length (directive (timestamp e) CHR ''d'') = 2)
             \<and> c = real (length (finished_on (get_all_progress_for_user entries usr) k))
             \<and> 1 \<le> c)"
proof (intro impI, elim conjE)
  assume pm: "period \<noteq> ''month''" and py: "period \<noteq> ''year''"
  have eq: "get_reading_activity_over_time entries usr period
      = get_reading_activity_over_time entries usr ''day''"
    by (rule activity_fallback [OF pm py])
  show "get_reading_activity_over_time entries usr period
         = get_reading_activity_over_time entries usr ''day''
       \<and> sorted (map fst (get_reading_activity_over_time entries usr period))
       \<and> distinct (map fst (get_reading_activity_over_time entries usr period))
       \<and> (\<forall>k. map_of (get_reading_activity_over_time entries usr period) k
              = (if finished_on (get_all_progress_for_user entries usr) k = [] then None
                 else Some (real (length
                        (finished_on (get_all_progress_for_user entries usr) k)))))
       \<and> (\<forall>(k, c) \<in> set (get_reading_activity_over_time entries usr period).
             (\<exists>(d, e) \<in> set (representatives (get_all_progress_for_user entries usr)).
                percentage e \<ge> 0.95
                \<and> k = directive (timestamp e) CHR ''Y'' @ CHR ''-''
                        # directive (timestamp e) CHR ''m'' @ CHR ''-''
                        # directive (timestamp e) CHR ''d''
                \<and> length (directive (timestamp e) CHR ''m'') = 2
                \<and> length (directive (timestamp e) CHR ''d'') = 2)
             \<and> c = real (length (finished_on (get_all_progress_for_user entries usr) k))
             \<and> 1 \<le> c)"
    unfolding eq
  proof (intro conjI ballI allI)
    show "get_reading_activity_over_time entries usr ''day''
        = get_reading_activity_over_time entries usr ''day''" ..
    show "sorted (map fst (get_reading_activity_over_time entries usr ''day''))"
      by (rule activity_sorted_keys)
    show "distinct (map fst (get_reading_activity_over_time entries usr ''day''))"
      by (rule activity_distinct_keys)
  next
    fix k
    show "map_of (get_reading_activity_over_time entries usr ''day'') k
              = (if finished_on (get_all_progress_for_user entries usr) k = [] then None
                 else Some (real (length
                        (finished_on (get_all_progress_for_user entries usr) k))))"
      by (rule activity_map_of)
  next
    fix x assume x: "x \<in> set (get_reading_activity_over_time entries usr ''day'')"
    obtain k c where kc: "x = (k, c)" by (cases x)
    from activity_day_entry [OF x [unfolded kc]]
    show "case x of (k, c) \<Rightarrow>
             (\<exists>(d, e) \<in> set (representatives (get_all_progress_for_user entries usr)).
                percentage e \<ge> 0.95
                \<and> k = directive (timestamp e) CHR ''Y'' @ CHR ''-''
                        # directive (timestamp e) CHR ''m'' @ CHR ''-''
                        # directive (timestamp e) CHR ''d''
                \<and> length (directive (timestamp e) CHR ''m'') = 2
                \<and> length (directive (timestamp e) CHR ''d'') = 2)
             \<and> c = real (length (finished_on (get_all_progress_for_user entries usr) k))
             \<and> 1 \<le> c"
      unfolding kc prod.case .
  qed
qed

theorem activity_period_fallback_witness:
  "''week'' \<noteq> ''month'' \<and> ''week'' \<noteq> ''year''
   \<and> get_reading_activity_over_time
        [sample 1 (Some 1) 1672574400 0.96, sample 2 (Some 2) 1672574500 0.99,
         sample 3 (Some 3) 1672574600 0.5] 7 ''week''
      = [(''2023-01-01'', 2)]
   \<and> get_reading_activity_over_time
        [sample 1 (Some 1) 1672574400 0.96, sample 2 (Some 2) 1672574500 0.99,
         sample 3 (Some 3) 1672574600 0.5] 7 []
      = [(''2023-01-01'', 2)]
   \<and> length (finished_on (get_all_progress_for_user
        [sample 1 (Some 1) 1672574400 0.96, sample 2 (Some 2) 1672574500 0.99,
         sample 3 (Some 3) 1672574600 0.5] 7) ''2023-01-01'') = 2"
proof -
  let ?s = "[sample 1 (Some 1) 1672574400 0.96, sample 2 (Some 2) 1672574500 0.99,
         sample 3 (Some 3) 1672574600 0.5]"
  have a: "''week'' \<noteq> ''month'' \<and> ''week'' \<noteq> ''year''" by simp
  have b: "[] \<noteq> ''month'' \<and> [] \<noteq> ''year''" by simp
  note w = mp [OF activity_period_fallback [of "''week''" ?s 7] a]
  note e = mp [OF activity_period_fallback [of "[]" ?s 7] b]
  have w1: "get_reading_activity_over_time ?s 7 ''week'' = [(''2023-01-01'', 2)]"
    using conjunct1 [OF w] by (simp only: activity_example)
  have e1: "get_reading_activity_over_time ?s 7 [] = [(''2023-01-01'', 2)]"
    using conjunct1 [OF e] by (simp only: activity_example)
  have "map_of (get_reading_activity_over_time ?s 7 ''week'') ''2023-01-01''
      = (if finished_on (get_all_progress_for_user ?s 7) ''2023-01-01'' = [] then None
         else Some (real (length (finished_on (get_all_progress_for_user ?s 7) ''2023-01-01''))))"
    using conjunct1 [OF conjunct2 [OF conjunct2 [OF conjunct2 [OF w]]]] by (rule spec)
  then have f: "length (finished_on (get_all_progress_for_user ?s 7) ''2023-01-01'') = 2"
    unfolding w1 by (simp split: if_splits)
  from a w1 e1 f show ?thesis by (intro conjI) (elim conjE, assumption)+
qed

section \<open>Most read books\<close>



section \<open>Reading-time estimate\<close>

text \<open>
  C6. \<open>get_total_reading_time_estimate\<close> equals the sum, over the documents of the
  user's feed, of the counted time deltas between consecutive samples of the document in
  ascending timestamp order, a delta being counted only when it is strictly positive,
  strictly below 7200 seconds and the percentage strictly increased.  A document with
  fewer than two samples contributes zero, and the estimate is zero when the user has
  fewer than two entries.
\<close>

theorem reading_time_estimate_spec:
  "get_total_reading_time_estimate entries usr
     = reading_time_spec (get_all_progress_for_user entries usr)
   \<and> (length (get_all_progress_for_user entries usr) < 2
        \<longrightarrow> get_total_reading_time_estimate entries usr = 0)
   \<and> (\<forall>doc. length (filter (\<lambda>p. progress.document_id p = doc)
                     (get_all_progress_for_user entries usr)) < 2
        \<longrightarrow> consecutive_sum (sort_key timestamp
               (filter (\<lambda>p. progress.document_id p = doc)
                  (get_all_progress_for_user entries usr))) = 0)"
proof (intro conjI allI impI)
  show "get_total_reading_time_estimate entries usr
     = reading_time_spec (get_all_progress_for_user entries usr)"
    by (rule reading_time_refines)
next
  assume "length (get_all_progress_for_user entries usr) < 2"
  from reading_time_short [OF this]
  show "get_total_reading_time_estimate entries usr = 0"
    by (simp only: reading_time_refines)
next
  fix doc
  assume "length (filter (\<lambda>p. progress.document_id p = doc)
                     (get_all_progress_for_user entries usr)) < 2"
  then have "length (sort_key timestamp (filter (\<lambda>p. progress.document_id p = doc)
                     (get_all_progress_for_user entries usr))) < 2"
    by (simp only: length_sort)
  then show "consecutive_sum (sort_key timestamp
               (filter (\<lambda>p. progress.document_id p = doc)
                  (get_all_progress_for_user entries usr))) = 0"
    by (rule consecutive_sum_short)
qed

theorem reading_time_estimate_spec_witness:
  "get_total_reading_time_estimate
     (save_all [sample 1 (Some 1) 1000 0.10, sample 1 (Some 2) 2000 0.30]) 7 = 1000
   \<and> reading_time_spec (get_all_progress_for_user
        (save_all [sample 1 (Some 1) 1000 0.10, sample 1 (Some 2) 2000 0.30]) 7) = 1000
   \<and> get_total_reading_time_estimate
        (save_all [sample 1 (Some 1) 1000 0.10, sample 1 (Some 2) 2000 0.30,
                   sample 1 (Some 3) 9300 0.35]) 7 = 1000
   \<and> reading_time_spec (get_all_progress_for_user
        (save_all [sample 1 (Some 1) 1000 0.10, sample 1 (Some 2) 2000 0.30,
                   sample 1 (Some 3) 9300 0.35]) 7) = 1000
   \<and> length (get_all_progress_for_user (save_all [sample 1 (Some 1) 1000 0.10]) 7) < 2
   \<and> get_total_reading_time_estimate (save_all [sample 1 (Some 1) 1000 0.10]) 7 = 0"
proof -
  let ?s2 = "save_all [sample 1 (Some 1) 1000 0.10, sample 1 (Some 2) 2000 0.30]"
  let ?s3 = "save_all [sample 1 (Some 1) 1000 0.10, sample 1 (Some 2) 2000 0.30,
                   sample 1 (Some 3) 9300 0.35]"
  let ?s1 = "save_all [sample 1 (Some 1) 1000 0.10]"
  have e2: "get_total_reading_time_estimate ?s2 7
      = reading_time_spec (get_all_progress_for_user ?s2 7)"
    by (rule conjunct1 [OF reading_time_estimate_spec [of ?s2 7]])
  have e3: "get_total_reading_time_estimate ?s3 7
      = reading_time_spec (get_all_progress_for_user ?s3 7)"
    by (rule conjunct1 [OF reading_time_estimate_spec [of ?s3 7]])
  have z: "get_total_reading_time_estimate ?s1 7 = 0"
    by (rule mp [OF conjunct1 [OF conjunct2 [OF reading_time_estimate_spec [of ?s1 7]]]
          reading_time_examples(4)])
  show ?thesis
    by (intro conjI reading_time_examples(1) reading_time_examples(2)
        reading_time_examples(4) z
        trans [OF e2 [symmetric] reading_time_examples(1)]
        trans [OF e3 [symmetric] reading_time_examples(2)])
qed

end
